theory Spec2Isabelle
  imports Complex_Main
begin

section \<open>JavaScript strings\<close>

text \<open>
  A JavaScript string is a sequence of UTF-16 code units; \<open>length\<close>, \<open>substring\<close>,
  \<open>indexOf\<close> and the regular expressions of the engines (none has the \<open>u\<close> flag) all
  count code units. A code unit is modelled by its numeric value, so a string is a list of
  natural numbers. String literals of the source are written as Isabelle strings and
  turned into code units by \<open>js\<close>.
\<close>

type_synonym jsstring = "nat list"

definition js :: "string \<Rightarrow> jsstring" where
  "js s = map of_char s"

text \<open>\<open>text.substring(0, n)\<close> is \<open>take n text\<close>.\<close>

section \<open>The bounded cache of an engine\<close>

text \<open>
  Every engine holds \<open>cache: Map<string, V>\<close> and \<open>maxCacheSize\<close>. A JavaScript \<open>Map\<close>
  iterates in insertion order, so it is an association list with distinct keys, oldest
  entry first.
\<close>

type_synonym 'v cache = "(jsstring \<times> 'v) list"

definition cacheHas :: "'v cache \<Rightarrow> jsstring \<Rightarrow> bool" where
  "cacheHas cache k = (k \<in> set (map fst cache))"

definition cacheGet :: "'v cache \<Rightarrow> jsstring \<Rightarrow> 'v option" where
  "cacheGet cache k = map_of cache k"

definition cacheDelete :: "jsstring \<Rightarrow> 'v cache \<Rightarrow> 'v cache" where
  "cacheDelete k cache = filter (\<lambda>kv. fst kv \<noteq> k) cache"

text \<open>\<open>Map.set\<close>: an existing key keeps its position, a new key goes to the end.\<close>

fun cacheSet :: "jsstring \<Rightarrow> 'v \<Rightarrow> 'v cache \<Rightarrow> 'v cache" where
  "cacheSet k v [] = [(k, v)]"
| "cacheSet k v ((k', v') # rest) =
     (if k' = k then (k, v) # rest else (k', v') # cacheSet k v rest)"

text \<open>
  The block that ends \<open>tokenize\<close>, \<open>analyze\<close>, \<open>extract\<close>, \<open>recognize\<close> and \<open>split\<close>:
  \<^verbatim>\<open>
    if (this.cache.size >= this.maxCacheSize) {
      const firstKey = this.cache.keys().next().value;
      if (firstKey) this.cache.delete(firstKey);
    }
    this.cache.set(cacheKey, result);
  \<close>
  \<open>firstKey\<close> is \<open>undefined\<close> for an empty map; \<open>if (firstKey)\<close> is a truthiness test,
  and the empty string is falsy as well.
\<close>

definition cacheStore :: "nat \<Rightarrow> jsstring \<Rightarrow> 'v \<Rightarrow> 'v cache \<Rightarrow> 'v cache" where
  "cacheStore maxCacheSize cacheKey result cache =
     cacheSet cacheKey result
       (if length cache \<ge> maxCacheSize then
          (case cache of
             [] \<Rightarrow> cache
           | (firstKey, _) # _ \<Rightarrow> if firstKey \<noteq> [] then cacheDelete firstKey cache else cache)
        else cache)"

text \<open>
  The frame shared by the five operations: look the truncated text up, return the
  cached value on a hit, otherwise compute, store and return. \<open>compute\<close> is the body
  between the cache check and the store; it may throw (\<open>Inl\<close>), and then nothing is stored.
\<close>

definition cachedCall ::
  "nat \<Rightarrow> nat \<Rightarrow> (jsstring \<Rightarrow> 'e + 'v) \<Rightarrow> 'v cache \<Rightarrow> jsstring \<Rightarrow> ('e + 'v) \<times> 'v cache" where
  "cachedCall keyLength maxCacheSize compute cache txt =
     (let cacheKey = take keyLength txt in
      case cacheGet cache cacheKey of
        Some hit \<Rightarrow> (Inr hit, cache)
      | None \<Rightarrow>
          (case compute txt of
             Inl err \<Rightarrow> (Inl err, cache)
           | Inr result \<Rightarrow> (Inr result, cacheStore maxCacheSize cacheKey result cache)))"

text \<open>The engines differ in the key length and the capacity only.\<close>

definition Tokenizer_call :: "(jsstring \<Rightarrow> 'e + 'v) \<Rightarrow> 'v cache \<Rightarrow> jsstring \<Rightarrow> ('e + 'v) \<times> 'v cache" where
  "Tokenizer_call = cachedCall 100 1000"

definition SentimentAnalyzer_call :: "(jsstring \<Rightarrow> 'e + 'v) \<Rightarrow> 'v cache \<Rightarrow> jsstring \<Rightarrow> ('e + 'v) \<times> 'v cache" where
  "SentimentAnalyzer_call = cachedCall 100 1000"

definition KeywordExtractor_call :: "(jsstring \<Rightarrow> 'e + 'v) \<Rightarrow> 'v cache \<Rightarrow> jsstring \<Rightarrow> ('e + 'v) \<times> 'v cache" where
  "KeywordExtractor_call = cachedCall 100 200"

definition NamedEntityRecognizer_call :: "(jsstring \<Rightarrow> 'e + 'v) \<Rightarrow> 'v cache \<Rightarrow> jsstring \<Rightarrow> ('e + 'v) \<times> 'v cache" where
  "NamedEntityRecognizer_call = cachedCall 150 500"

definition SentenceSplitter_call :: "(jsstring \<Rightarrow> 'e + 'v) \<Rightarrow> 'v cache \<Rightarrow> jsstring \<Rightarrow> ('e + 'v) \<times> 'v cache" where
  "SentenceSplitter_call = cachedCall 200 500"

text \<open>The cache of an engine after a sequence of calls, starting from a given cache.\<close>

fun cacheAfter ::
  "((jsstring \<Rightarrow> 'e + 'v) \<Rightarrow> 'v cache \<Rightarrow> jsstring \<Rightarrow> ('e + 'v) \<times> 'v cache) \<Rightarrow>
     (jsstring \<Rightarrow> 'e + 'v) \<Rightarrow> 'v cache \<Rightarrow> jsstring list \<Rightarrow> 'v cache" where
  "cacheAfter call compute cache [] = cache"
| "cacheAfter call compute cache (t # ts) =
     cacheAfter call compute (snd (call compute cache t)) ts"

section \<open>Named entities and their deduplication\<close>

datatype EntityType =
  PERSON | ORGANIZATION | LOCATION | PRODUCT | DATE | TIME | MONEY | PERCENT | EVENT
  | URL | EMAIL | HASHTAG | MENTION

record NamedEntity =
  e_text :: jsstring
  e_type :: EntityType
  e_startChar :: int
  e_endChar :: int
  e_confidence :: real

text \<open>
  The comparator of \<open>deduplicateEntities\<close>:
  \<^verbatim>\<open>
    if (a.startChar !== b.startChar) return a.startChar - b.startChar;
    return (b.endChar - b.startChar) - (a.endChar - a.startChar);
  \<close>
\<close>

definition compareEntities :: "NamedEntity \<Rightarrow> NamedEntity \<Rightarrow> int" where
  "compareEntities a b =
     (if e_startChar a \<noteq> e_startChar b then e_startChar a - e_startChar b
      else (e_endChar b - e_startChar b) - (e_endChar a - e_startChar a))"

text \<open>
  \<open>Array.prototype.sort\<close> is stable; with a comparator it is an insertion of each element
  behind the elements that compare less than or equal to it.
\<close>

fun insertBy :: "('a \<Rightarrow> 'a \<Rightarrow> int) \<Rightarrow> 'a \<Rightarrow> 'a list \<Rightarrow> 'a list" where
  "insertBy cmp x [] = [x]"
| "insertBy cmp x (y # ys) =
     (if cmp x y < 0 then x # y # ys else y # insertBy cmp x ys)"

definition sortBy :: "('a \<Rightarrow> 'a \<Rightarrow> int) \<Rightarrow> 'a list \<Rightarrow> 'a list" where
  "sortBy cmp xs = foldl (\<lambda>acc x. insertBy cmp x acc) [] xs"

text \<open>The loop of \<open>deduplicateEntities\<close> over the sorted candidates, with \<open>result\<close> and \<open>lastEnd\<close>.\<close>

fun dedupLoop :: "NamedEntity list \<Rightarrow> NamedEntity list \<Rightarrow> int \<Rightarrow> NamedEntity list" where
  "dedupLoop [] result lastEnd = result"
| "dedupLoop (entity # rest) result lastEnd =
     (if e_startChar entity < lastEnd then dedupLoop rest result lastEnd
      else
        (case find (\<lambda>e. e_text e = e_text entity \<and> e_type e = e_type entity \<and>
                        \<bar>e_startChar e - e_startChar entity\<bar> < 5) result of
           Some duplicate \<Rightarrow> dedupLoop rest result lastEnd
         | None \<Rightarrow> dedupLoop rest (result @ [entity]) (e_endChar entity)))"

definition deduplicateEntities :: "NamedEntity list \<Rightarrow> NamedEntity list" where
  "deduplicateEntities entities = dedupLoop (sortBy compareEntities entities) [] (- 1)"

text \<open>
  \<open>recognize(text)\<close>. The array \<open>entities\<close> that \<open>extractPatternEntities\<close> and
  \<open>extractTokenEntities\<close> fill is the argument \<open>entities\<close>: every statement below holds for
  whatever candidates the two passes push. Neither pass throws.
\<close>

datatype TypeError = TypeError

definition recognize ::
  "NamedEntity list \<Rightarrow> NamedEntity list cache \<Rightarrow> jsstring \<Rightarrow>
     (TypeError + NamedEntity list) \<times> NamedEntity list cache" where
  "recognize entities cache txt =
     NamedEntityRecognizer_call (\<lambda>t. Inr (deduplicateEntities entities)) cache txt"

text \<open>The caches a recognizer can hold: empty when constructed, then changed by \<open>recognize\<close> only.\<close>

inductive recognizerCache :: "NamedEntity list cache \<Rightarrow> bool" where
  fresh: "recognizerCache []"
| step: "recognizerCache cache \<Longrightarrow> recognizerCache (snd (recognize entities cache txt))"

text \<open>Two spans \<open>[startChar, endChar)\<close> intersect when some position lies in both.\<close>

definition spansIntersect :: "NamedEntity \<Rightarrow> NamedEntity \<Rightarrow> bool" where
  "spansIntersect a b = (max (e_startChar a) (e_startChar b) < min (e_endChar a) (e_endChar b))"

text \<open>One span ends where the other starts, or before.\<close>

definition follows :: "NamedEntity \<Rightarrow> NamedEntity \<Rightarrow> bool" where
  "follows a b = (e_endChar a \<le> e_startChar b)"

definition noOverlap :: "NamedEntity list \<Rightarrow> bool" where
  "noOverlap es =
     (\<forall>i<length es. \<forall>j<length es. i \<noteq> j \<longrightarrow> \<not> spansIntersect (es ! i) (es ! j))"

section \<open>The tokenizer\<close>

subsection \<open>Character classes and string primitives\<close>

definition upperChar :: "nat \<Rightarrow> bool" where \<comment> \<open>\<open>[A-Z]\<close>\<close>
  "upperChar c = (65 \<le> c \<and> c \<le> 90)"

definition lowerChar :: "nat \<Rightarrow> bool" where \<comment> \<open>\<open>[a-z]\<close>\<close>
  "lowerChar c = (97 \<le> c \<and> c \<le> 122)"

definition letterChar :: "nat \<Rightarrow> bool" where \<comment> \<open>\<open>[A-Za-z]\<close>\<close>
  "letterChar c = (upperChar c \<or> lowerChar c)"

definition digitChar :: "nat \<Rightarrow> bool" where \<comment> \<open>\<open>\d\<close>\<close>
  "digitChar c = (48 \<le> c \<and> c \<le> 57)"

definition wordChar :: "nat \<Rightarrow> bool" where \<comment> \<open>\<open>\w\<close>, that is \<open>[A-Za-z0-9_]\<close>\<close>
  "wordChar c = (letterChar c \<or> digitChar c \<or> c = 95)"

text \<open>
  \<open>\s\<close>: tab, line feed, vertical tab, form feed, carriage return, space, no-break space,
  U+1680, U+2000 to U+200A, the line and paragraph separators, U+202F, U+205F, U+3000 and
  the byte order mark.
\<close>

definition spaceChar :: "nat \<Rightarrow> bool" where
  "spaceChar c =
     (c \<in> {9, 10, 11, 12, 13, 32, 160, 5760, 8232, 8233, 8239, 8287, 12288, 65279} \<or>
      (8192 \<le> c \<and> c \<le> 8202))"

text \<open>
  \<open>toLowerCase\<close> on the letters of Basic Latin. The case mappings of Unicode beyond
  them are not modelled: a code unit above 127 is left as it is. The engines' tables and
  patterns hold letters of Basic Latin only.
\<close>

definition toLowerCase :: "jsstring \<Rightarrow> jsstring" where
  "toLowerCase s = map (\<lambda>c. if upperChar c then c + 32 else c) s"

definition endsWith :: "jsstring \<Rightarrow> jsstring \<Rightarrow> bool" where
  "endsWith s suffix =
     (length suffix \<le> length s \<and> drop (length s - length suffix) s = suffix)"

text \<open>
  \<open>text.indexOf(search, position)\<close>: the first index at or after the position (clamped into
  the text) where \<open>search\<close> starts, or \<open>-1\<close>.
\<close>

fun findFrom :: "jsstring \<Rightarrow> jsstring \<Rightarrow> nat \<Rightarrow> int" where
  "findFrom search [] i = (if search = [] then int i else - 1)"
| "findFrom search (c # cs) i =
     (if take (length search) (c # cs) = search then int i else findFrom search cs (i + 1))"

definition indexOf :: "jsstring \<Rightarrow> jsstring \<Rightarrow> int \<Rightarrow> int" where
  "indexOf txt search position =
     (let p = nat (max 0 (min position (int (length txt))))
      in findFrom search (drop p txt) p)"

text \<open>\<open>text.substring(a, b)\<close>: both ends are clamped into the text and swapped when \<open>a > b\<close>.\<close>

definition substring :: "jsstring \<Rightarrow> int \<Rightarrow> int \<Rightarrow> jsstring" where
  "substring txt a b =
     (let a' = nat (max 0 (min a (int (length txt))));
          b' = nat (max 0 (min b (int (length txt))))
      in take (max a' b' - min a' b') (drop (min a' b') txt))"

subsection \<open>Property lookup on object literals\<close>

text \<open>
  The tables \<open>WORD_POS_MAP\<close>, \<open>IRREGULAR_VERBS\<close>, \<open>IRREGULAR_PLURALS\<close>, \<open>SENTIMENT_LEXICON\<close>,
  \<open>INTENSIFIERS\<close> and \<open>DIMINISHERS\<close> are object literals read with \<open>TABLE[key]\<close>. Such a
  read returns the table's own entry (the last one, where the literal repeats a key); for a
  key the literal does not have it goes on to \<open>Object.prototype\<close>, whose properties are all
  truthy (functions, and the prototype object itself for \<open>__proto__\<close>); otherwise it is
  \<open>undefined\<close>. The stop words, the negations and the abbreviations are \<open>Set\<close>s, whose
  \<open>has\<close> knows the listed members only.
\<close>

datatype 'a property = Undefined | Own 'a | Inherited

definition OBJECT_PROTOTYPE :: "string list" where
  "OBJECT_PROTOTYPE =
     [''constructor'', ''__defineGetter__'', ''__defineSetter__'', ''hasOwnProperty'',
      ''__lookupGetter__'', ''__lookupSetter__'', ''isPrototypeOf'', ''propertyIsEnumerable'',
      ''toString'', ''valueOf'', ''__proto__'', ''toLocaleString'']"

definition getProperty :: "(string \<times> 'a) list \<Rightarrow> jsstring \<Rightarrow> 'a property" where
  "getProperty obj key =
     (case map_of (map (\<lambda>(k, v). (js k, v)) (rev obj)) key of
        Some v \<Rightarrow> Own v
      | None \<Rightarrow> if key \<in> set (map js OBJECT_PROTOTYPE) then Inherited else Undefined)"

definition setHas :: "string list \<Rightarrow> jsstring \<Rightarrow> bool" where
  "setHas members x = (x \<in> set (map js members))"

subsection \<open>Raw tokens\<close>

text \<open>
  \<open>splitIntoRawTokens\<close> runs
  \<^verbatim>\<open>/([A-Za-z]+(?:'[A-Za-z]+)?)|(\d+(?:[.,]\d+)*%?)|([^\w\s])|(\s+)/g\<close>
  over the text with \<open>exec\<close>. Each of the four functions below is one alternative tried at
  the start of the remaining input; it returns the match and the input after it. The
  quantifiers are greedy and everything after the first repetition is optional, so the
  first match an alternative finds is the longest one.
\<close>

definition matchWord :: "jsstring \<Rightarrow> (jsstring \<times> jsstring) option" where
  "matchWord s =
     (let letters = takeWhile letterChar s; rest = dropWhile letterChar s in
      if letters = [] then None
      else
        (case rest of
           q # l # after \<Rightarrow>
             if q = 39 \<and> letterChar l
             then Some (letters @ q # takeWhile letterChar (l # after),
                        dropWhile letterChar (l # after))
             else Some (letters, rest)
         | _ \<Rightarrow> Some (letters, rest)))"

text \<open>The groups \<open>(?:[.,]\d+)*\<close> of a number, as far as they go.\<close>

function numberGroups :: "jsstring \<Rightarrow> jsstring \<times> jsstring" where
  "numberGroups s =
     (case s of
        sep # d # after \<Rightarrow>
          if (sep = 46 \<or> sep = 44) \<and> digitChar d
          then (let (groups, rest) = numberGroups (dropWhile digitChar after)
                in (sep # d # takeWhile digitChar after @ groups, rest))
          else ([], s)
      | _ \<Rightarrow> ([], s))"
  by pat_completeness auto
termination
  by (relation "measure length") (auto simp: less_Suc_eq_le intro: le_trans [OF length_dropWhile_le])

definition matchNumber :: "jsstring \<Rightarrow> (jsstring \<times> jsstring) option" where
  "matchNumber s =
     (let digits = takeWhile digitChar s in
      if digits = [] then None
      else
        (let (groups, rest) = numberGroups (dropWhile digitChar s) in
         case rest of
           p # after \<Rightarrow>
             if p = 37 then Some (digits @ groups @ [p], after)
             else Some (digits @ groups, rest)
         | [] \<Rightarrow> Some (digits @ groups, rest)))"

definition matchPunct :: "jsstring \<Rightarrow> (jsstring \<times> jsstring) option" where
  "matchPunct s =
     (case s of
        c # after \<Rightarrow> if \<not> wordChar c \<and> \<not> spaceChar c then Some ([c], after) else None
      | [] \<Rightarrow> None)"

definition matchSpace :: "jsstring \<Rightarrow> (jsstring \<times> jsstring) option" where
  "matchSpace s =
     (if takeWhile spaceChar s = [] then None
      else Some (takeWhile spaceChar s, dropWhile spaceChar s))"

datatype RawType = RawWord | RawPunct | RawSpace

text \<open>
  The \<open>while ((match = tokenRegex.exec(text)) !== null)\<close> loop: a word and a number are
  pushed with type \<open>'word'\<close>, a punctuation character with type \<open>'punct'\<close>, white space is
  matched and dropped. Where no alternative matches at the current position the search of
  \<open>exec\<close> moves one code unit on.
\<close>

function splitIntoRawTokens :: "jsstring \<Rightarrow> (jsstring \<times> RawType) list" where
  "splitIntoRawTokens s =
     (if s = [] then []
      else
        (case matchWord s of
           Some (word, rest) \<Rightarrow> (word, RawWord) # splitIntoRawTokens rest
         | None \<Rightarrow>
        (case matchNumber s of
           Some (number, rest) \<Rightarrow> (number, RawWord) # splitIntoRawTokens rest
         | None \<Rightarrow>
        (case matchPunct s of
           Some (punct, rest) \<Rightarrow> (punct, RawPunct) # splitIntoRawTokens rest
         | None \<Rightarrow>
        (case matchSpace s of
           Some (space, rest) \<Rightarrow> splitIntoRawTokens rest
         | None \<Rightarrow> splitIntoRawTokens (tl s))))))"
  by pat_completeness auto

text \<open>Every alternative consumes what it matches, so the loop ends.\<close>

lemma matchWord_split:
  assumes "matchWord s = Some (w, rest)"
  shows "s = w @ rest \<and> w \<noteq> [] \<and> letterChar (hd w)"
proof -
  let ?letters = "takeWhile letterChar s" and ?rest = "dropWhile letterChar s"
  have ne: "?letters \<noteq> []" using assms by (auto simp: matchWord_def Let_def split: if_splits)
  then have hd: "letterChar (hd ?letters)"
    by (metis hd_in_set set_takeWhileD)
  have s: "s = ?letters @ ?rest" by simp
  show ?thesis
  proof (cases "\<exists>l after. ?rest = 39 # l # after \<and> letterChar l")
    case True
    then obtain l after where r: "?rest = 39 # l # after" and l: "letterChar l" by blast
    then have "w = ?letters @ 39 # takeWhile letterChar (l # after)"
      and "rest = dropWhile letterChar (l # after)"
      using assms ne by (auto simp: matchWord_def Let_def)
    moreover have "s = ?letters @ 39 # takeWhile letterChar (l # after) @ dropWhile letterChar (l # after)"
      using s r by (metis takeWhile_dropWhile_id)
    ultimately show ?thesis using ne hd by (auto simp: hd_append)
  next
    case False
    then have "w = ?letters" "rest = ?rest"
      using assms ne by (auto simp: matchWord_def Let_def split: list.splits if_splits)
    then show ?thesis using ne hd by simp
  qed
qed

lemma numberGroups_split: "numberGroups s = (groups, rest) \<Longrightarrow> s = groups @ rest"
proof (induction s arbitrary: groups rest rule: numberGroups.induct)
  case (1 s)
  show ?case
  proof (cases "\<exists>sep d after. s = sep # d # after \<and> (sep = 46 \<or> sep = 44) \<and> digitChar d")
    case True
    then obtain sep d after where s: "s = sep # d # after" and c: "(sep = 46 \<or> sep = 44) \<and> digitChar d"
      by blast
    obtain g r where gr: "numberGroups (dropWhile digitChar after) = (g, r)" by fastforce
    have "dropWhile digitChar after = g @ r" using "1.IH"[of sep "d # after" d after g r] s c gr by simp
    moreover have "groups = sep # d # takeWhile digitChar after @ g" "rest = r"
      using "1.prems" s c gr by (simp_all add: numberGroups.simps[of s])
    ultimately show ?thesis using s by (metis append_Cons append_assoc takeWhile_dropWhile_id)
  next
    case False
    then have "groups = []" "rest = s" using "1.prems"
      by (auto simp: numberGroups.simps[of s] split: list.splits if_splits)
    then show ?thesis by simp
  qed
qed

lemma matchNumber_split:
  assumes "matchNumber s = Some (n, rest)"
  shows "s = n @ rest \<and> n \<noteq> [] \<and> digitChar (hd n)"
proof -
  let ?digits = "takeWhile digitChar s"
  obtain g r where gr: "numberGroups (dropWhile digitChar s) = (g, r)" by fastforce
  have ne: "?digits \<noteq> []" using assms by (auto simp: matchNumber_def Let_def split: if_splits)
  then have hd: "digitChar (hd ?digits)" by (metis hd_in_set set_takeWhileD)
  have s: "s = ?digits @ g @ r" using numberGroups_split[OF gr] by (metis takeWhile_dropWhile_id)
  have "(n = ?digits @ g @ [37] \<and> r = 37 # rest) \<or> (n = ?digits @ g \<and> rest = r)"
    using assms ne gr by (auto simp: matchNumber_def Let_def split: list.splits if_splits)
  then show ?thesis using s ne hd by (auto simp: hd_append)
qed

lemma matchPunct_split:
  assumes "matchPunct s = Some (p, rest)"
  shows "s = p @ rest \<and> (\<exists>c. p = [c] \<and> \<not> wordChar c \<and> \<not> spaceChar c)"
  using assms by (auto simp: matchPunct_def split: list.splits if_splits)

lemma matchSpace_split:
  assumes "matchSpace s = Some (sp, rest)"
  shows "s = sp @ rest \<and> sp \<noteq> [] \<and> list_all spaceChar sp"
  using assms by (auto simp: matchSpace_def list_all_iff split: if_splits dest: set_takeWhileD)

termination splitIntoRawTokens
proof (relation "measure length")
  show "wf (measure length)" by simp
next
  fix s x2 w rest assume "matchWord s = Some x2" "(w, rest) = x2"
  then show "(rest, s) \<in> measure length" using matchWord_split[of s w rest] by auto
next
  fix s x2 w rest assume "matchNumber s = Some x2" "(w, rest) = x2"
  then show "(rest, s) \<in> measure length" using matchNumber_split[of s w rest] by auto
next
  fix s x2 w rest assume "matchPunct s = Some x2" "(w, rest) = x2"
  then show "(rest, s) \<in> measure length" using matchPunct_split[of s w rest] by auto
next
  fix s x2 w rest assume "matchSpace s = Some x2" "(w, rest) = x2"
  then show "(rest, s) \<in> measure length" using matchSpace_split[of s w rest] by auto
next
  fix s :: jsstring assume "s \<noteq> []"
  then show "(tl s, s) \<in> measure length" by (cases s) auto
qed

section \<open>Deduplicated entities do not overlap\<close>

lemma set_insertBy: "set (insertBy cmp x ys) = insert x (set ys)"
  by (induction ys) auto

lemma compareEntities_less: "compareEntities a b < 0 \<Longrightarrow> e_startChar a \<le> e_startChar b"
  by (auto simp: compareEntities_def split: if_splits)

lemma compareEntities_not_less: "\<not> compareEntities a b < 0 \<Longrightarrow> e_startChar b \<le> e_startChar a"
  by (auto simp: compareEntities_def split: if_splits)

lemma sorted_insertBy:
  "sorted (map e_startChar ys) \<Longrightarrow> sorted (map e_startChar (insertBy compareEntities x ys))"
proof (induction ys)
  case Nil
  then show ?case by simp
next
  case (Cons y ys)
  show ?case
  proof (cases "compareEntities x y < 0")
    case True
    then have "e_startChar x \<le> e_startChar y" by (rule compareEntities_less)
    with Cons.prems True show ?thesis by auto
  next
    case False
    then have "e_startChar y \<le> e_startChar x" by (rule compareEntities_not_less)
    with Cons False show ?thesis by (auto simp: set_insertBy)
  qed
qed

lemma sorted_foldl_insertBy:
  "sorted (map e_startChar acc) \<Longrightarrow>
   sorted (map e_startChar (foldl (\<lambda>acc x. insertBy compareEntities x acc) acc xs))"
  by (induction xs arbitrary: acc) (auto intro: sorted_insertBy)

lemma sorted_sortBy: "sorted (map e_startChar (sortBy compareEntities xs))"
  unfolding sortBy_def by (rule sorted_foldl_insertBy) simp

lemma dedupLoop_chain:
  "sorted (map e_startChar rest) \<Longrightarrow> sorted_wrt follows result \<Longrightarrow>
   (\<forall>r\<in>set result. \<forall>x\<in>set rest. lastEnd \<le> e_startChar x \<longrightarrow> e_endChar r \<le> e_startChar x) \<Longrightarrow>
   sorted_wrt follows (dedupLoop rest result lastEnd)"
proof (induction rest arbitrary: result lastEnd)
  case Nil
  then show ?case by simp
next
  case (Cons x rest)
  have srt: "sorted (map e_startChar rest)" using Cons.prems(1) by simp
  have later: "\<forall>y\<in>set rest. e_startChar x \<le> e_startChar y" using Cons.prems(1) by simp
  show ?case
  proof (cases "e_startChar x < lastEnd")
    case True
    then show ?thesis using Cons.IH[OF srt Cons.prems(2)] Cons.prems(3) by simp
  next
    case False
    then have past: "\<forall>r\<in>set result. e_endChar r \<le> e_startChar x"
      using Cons.prems(3) by simp
    show ?thesis
    proof (cases "find (\<lambda>e. e_text e = e_text x \<and> e_type e = e_type x \<and>
                        \<bar>e_startChar e - e_startChar x\<bar> < 5) result")
      case None
      have "\<forall>r\<in>set result. follows r x" using past by (simp add: follows_def)
      then have chain: "sorted_wrt follows (result @ [x])"
        using Cons.prems(2) by (simp add: sorted_wrt_append)
      have "\<forall>r\<in>set (result @ [x]). \<forall>y\<in>set rest. e_endChar x \<le> e_startChar y \<longrightarrow> e_endChar r \<le> e_startChar y"
        using past later by fastforce
      from Cons.IH[OF srt chain this] False None show ?thesis by simp
    next
      case (Some d)
      then show ?thesis using False Cons.IH[OF srt Cons.prems(2)] Cons.prems(3) by simp
    qed
  qed
qed

lemma deduplicateEntities_chain: "sorted_wrt follows (deduplicateEntities entities)"
  unfolding deduplicateEntities_def
  by (rule dedupLoop_chain) (simp_all add: sorted_sortBy)

lemma follows_not_intersect: "follows a b \<Longrightarrow> \<not> spansIntersect a b \<and> \<not> spansIntersect b a"
  by (auto simp: follows_def spansIntersect_def)

lemma chain_noOverlap: "sorted_wrt follows es \<Longrightarrow> noOverlap es"
  unfolding noOverlap_def
proof (intro allI impI)
  fix i j assume s: "sorted_wrt follows es" and "i < length es" "j < length es" "i \<noteq> j"
  then consider "i < j" | "j < i" by linarith
  then show "\<not> spansIntersect (es ! i) (es ! j)"
  proof cases
    case 1
    then have "follows (es ! i) (es ! j)" using s \<open>j < length es\<close> by (simp add: sorted_wrt_iff_nth_less)
    then show ?thesis using follows_not_intersect by blast
  next
    case 2
    then have "follows (es ! j) (es ! i)" using s \<open>i < length es\<close> by (simp add: sorted_wrt_iff_nth_less)
    then show ?thesis using follows_not_intersect by blast
  qed
qed

lemma spansIntersect_iff:
  "spansIntersect a b \<longleftrightarrow> (\<exists>x. e_startChar a \<le> x \<and> x < e_endChar a \<and> e_startChar b \<le> x \<and> x < e_endChar b)"
proof
  assume "spansIntersect a b"
  then have "e_startChar a \<le> max (e_startChar a) (e_startChar b) \<and> max (e_startChar a) (e_startChar b) < e_endChar a
    \<and> e_startChar b \<le> max (e_startChar a) (e_startChar b) \<and> max (e_startChar a) (e_startChar b) < e_endChar b"
    by (auto simp: spansIntersect_def)
  then show "\<exists>x. e_startChar a \<le> x \<and> x < e_endChar a \<and> e_startChar b \<le> x \<and> x < e_endChar b" by blast
next
  assume "\<exists>x. e_startChar a \<le> x \<and> x < e_endChar a \<and> e_startChar b \<le> x \<and> x < e_endChar b"
  then show "spansIntersect a b" by (auto simp: spansIntersect_def)
qed

lemma set_cacheSet: "set (cacheSet k v c) \<subseteq> insert (k, v) (set c)"
  by (induction c) (auto split: if_splits)

lemma set_cacheStore: "set (cacheStore n k v c) \<subseteq> insert (k, v) (set c)"
proof -
  have "set (cacheStore n k v c) \<subseteq> insert (k, v) (set (if length c \<ge> n then
          (case c of [] \<Rightarrow> c | (firstKey, _) # _ \<Rightarrow> if firstKey \<noteq> [] then cacheDelete firstKey c else c)
        else c))"
    unfolding cacheStore_def by (rule set_cacheSet)
  also have "\<dots> \<subseteq> insert (k, v) (set c)"
    by (auto simp: cacheDelete_def split: list.splits)
  finally show ?thesis .
qed

lemma recognizerCache_noOverlap:
  "recognizerCache cache \<Longrightarrow> \<forall>kv\<in>set cache. sorted_wrt follows (snd kv)"
proof (induction rule: recognizerCache.induct)
  case fresh
  then show ?case by simp
next
  case (step cache entities t)
  show ?case
  proof (cases "cacheGet cache (take 150 t)")
    case None
    then have "snd (recognize entities cache t) = cacheStore 500 (take 150 t) (deduplicateEntities entities) cache"
      by (simp add: recognize_def NamedEntityRecognizer_call_def cachedCall_def)
    then show ?thesis using step.IH set_cacheStore[of 500 "take 150 t" "deduplicateEntities entities" cache]
      deduplicateEntities_chain[of entities] by auto
  next
    case (Some hit)
    then show ?thesis using step.IH
      by (simp add: recognize_def NamedEntityRecognizer_call_def cachedCall_def)
  qed
qed

text \<open>
  Claim C1. Whatever candidates the two extraction passes collect and whatever the
  recognizer has cached before, \<open>recognize\<close> returns a list, and no two entries of it at
  different positions have intersecting spans \<open>[startChar, endChar)\<close>: the candidates are
  sorted by start, and a candidate is kept only if it starts at or after the end of the
  candidate kept last.
\<close>

theorem recognize_no_overlap:
  assumes "recognizerCache cache"
  shows "\<exists>result. fst (recognize entities cache txt) = Inr result \<and>
           (\<forall>i<length result. \<forall>j<length result. i \<noteq> j \<longrightarrow> \<not> spansIntersect (result ! i) (result ! j))"
proof (cases "cacheGet cache (take 150 txt)")
  case None
  then have "fst (recognize entities cache txt) = Inr (deduplicateEntities entities)"
    by (simp add: recognize_def NamedEntityRecognizer_call_def cachedCall_def)
  then show ?thesis using chain_noOverlap[OF deduplicateEntities_chain[of entities]]
    by (simp add: noOverlap_def)
next
  case (Some hit)
  then have r: "fst (recognize entities cache txt) = Inr hit"
    by (simp add: recognize_def NamedEntityRecognizer_call_def cachedCall_def)
  from Some have "(take 150 txt, hit) \<in> set cache" by (simp add: cacheGet_def map_of_SomeD)
  with recognizerCache_noOverlap[OF assms] have "sorted_wrt follows hit" by auto
  then show ?thesis using r chain_noOverlap by (simp add: noOverlap_def)
qed

theorem recognize_no_overlap_witness:
  "recognizerCache [] \<and>
   (\<exists>result.
      fst (recognize
        [\<lparr>e_text = js ''acme'', e_type = ORGANIZATION, e_startChar = 10, e_endChar = 14,
           e_confidence = 0.8\<rparr>,
         \<lparr>e_text = js ''www.acme.com'', e_type = URL, e_startChar = 6, e_endChar = 18,
           e_confidence = 0.95\<rparr>,
         \<lparr>e_text = js ''#deal'', e_type = HASHTAG, e_startChar = 19, e_endChar = 24,
           e_confidence = 0.95\<rparr>]
        [] (js ''Visit www.acme.com #deal'')) = Inr result \<and>
      map e_type result = [URL, HASHTAG] \<and> \<not> spansIntersect (result ! 0) (result ! 1))"
proof -
  let ?ents = "[\<lparr>e_text = js ''acme'', e_type = ORGANIZATION, e_startChar = 10, e_endChar = 14,
           e_confidence = 0.8\<rparr>,
         \<lparr>e_text = js ''www.acme.com'', e_type = URL, e_startChar = 6, e_endChar = 18,
           e_confidence = 0.95\<rparr>,
         \<lparr>e_text = js ''#deal'', e_type = HASHTAG, e_startChar = 19, e_endChar = 24,
           e_confidence = 0.95\<rparr>]"
  let ?t = "js ''Visit www.acme.com #deal''"
  have v: "fst (recognize ?ents [] ?t) =
      Inr [\<lparr>e_text = js ''www.acme.com'', e_type = URL, e_startChar = 6, e_endChar = 18,
             e_confidence = 0.95\<rparr>,
           \<lparr>e_text = js ''#deal'', e_type = HASHTAG, e_startChar = 19, e_endChar = 24,
             e_confidence = 0.95\<rparr>]"
    by (simp add: recognize_def NamedEntityRecognizer_call_def cachedCall_def cacheGet_def
        deduplicateEntities_def sortBy_def compareEntities_def)
  from recognize_no_overlap [OF recognizerCache.fresh, of ?ents ?t]
  obtain result where r: "fst (recognize ?ents [] ?t) = Inr result"
    and no: "\<forall>i<length result. \<forall>j<length result. i \<noteq> j \<longrightarrow>
               \<not> spansIntersect (result ! i) (result ! j)"
    by blast
  from r v have len: "length result = 2" and ty: "map e_type result = [URL, HASHTAG]" by auto
  from no len have nx: "\<not> spansIntersect (result ! 0) (result ! 1)" by simp
  have "fst (recognize ?ents [] ?t) = Inr result \<and> map e_type result = [URL, HASHTAG] \<and>
      \<not> spansIntersect (result ! 0) (result ! 1)"
    by (intro conjI) (rule r ty nx)+
  then have "\<exists>result. fst (recognize ?ents [] ?t) = Inr result \<and>
      map e_type result = [URL, HASHTAG] \<and> \<not> spansIntersect (result ! 0) (result ! 1)"
    by (rule exI)
  with recognizerCache.fresh show ?thesis by (rule conjI)
qed

section \<open>The cache: prefix collisions and the capacity\<close>

lemma map_of_cacheSet: "map_of (cacheSet k v c) k = Some v"
  by (induction c) auto

lemma cacheGet_cacheStore: "cacheGet (cacheStore cap k v c) k = Some v"
  by (simp add: cacheGet_def cacheStore_def map_of_cacheSet)

lemma cachedCall_hit_after:
  assumes "take n t1 = take n t2" and "fst (cachedCall n cap f cache t1) = Inr r"
  shows "fst (cachedCall n cap g (snd (cachedCall n cap f cache t1)) t2) = Inr r"
proof (cases "cacheGet cache (take n t1)")
  case None
  with assms(2) obtain r' where c: "f t1 = Inr r'" and "r' = r"
    by (cases "f t1") (auto simp: cachedCall_def)
  then have "snd (cachedCall n cap f cache t1) = cacheStore cap (take n t1) r cache"
    using None by (simp add: cachedCall_def)
  then show ?thesis using assms(1) by (simp add: cachedCall_def cacheGet_cacheStore)
next
  case (Some hit)
  with assms(2) have "hit = r" by (simp add: cachedCall_def)
  with Some show ?thesis using assms(1) by (simp add: cachedCall_def)
qed

text \<open>
  Claim C10. For each of the five engines: when two texts agree on the key prefix (100 code
  units for \<open>tokenize\<close>, \<open>analyze\<close> and \<open>extract\<close>, 150 for \<open>recognize\<close>, 200 for \<open>split\<close>) and
  the call on the first text returns a result, the call on the second text that follows
  returns that same result, whatever the engine would compute for the second text (\<open>g\<close>) and
  whatever the cache held before.
\<close>

theorem engines_prefix_collision:
  "(take 100 t1 = take 100 t2 \<longrightarrow> fst (Tokenizer_call f1 c1 t1) = Inr r1 \<longrightarrow>
      fst (Tokenizer_call g1 (snd (Tokenizer_call f1 c1 t1)) t2) = Inr r1) \<and>
   (take 100 t1 = take 100 t2 \<longrightarrow> fst (SentimentAnalyzer_call f2 c2 t1) = Inr r2 \<longrightarrow>
      fst (SentimentAnalyzer_call g2 (snd (SentimentAnalyzer_call f2 c2 t1)) t2) = Inr r2) \<and>
   (take 100 t1 = take 100 t2 \<longrightarrow> fst (KeywordExtractor_call f3 c3 t1) = Inr r3 \<longrightarrow>
      fst (KeywordExtractor_call g3 (snd (KeywordExtractor_call f3 c3 t1)) t2) = Inr r3) \<and>
   (take 150 t1 = take 150 t2 \<longrightarrow> fst (NamedEntityRecognizer_call f4 c4 t1) = Inr r4 \<longrightarrow>
      fst (NamedEntityRecognizer_call g4 (snd (NamedEntityRecognizer_call f4 c4 t1)) t2) = Inr r4) \<and>
   (take 200 t1 = take 200 t2 \<longrightarrow> fst (SentenceSplitter_call f5 c5 t1) = Inr r5 \<longrightarrow>
      fst (SentenceSplitter_call g5 (snd (SentenceSplitter_call f5 c5 t1)) t2) = Inr r5)"
  unfolding Tokenizer_call_def SentimentAnalyzer_call_def KeywordExtractor_call_def
    NamedEntityRecognizer_call_def SentenceSplitter_call_def
  by (intro conjI impI) (rule cachedCall_hit_after; assumption)+

lemma cacheSet_new: "k \<notin> fst ` set c \<Longrightarrow> cacheSet k v c = c @ [(k, v)]"
  by (induction c) auto

theorem engines_prefix_collision_witness:
  "take 200 (replicate 200 97 @ [98]) = take 200 (replicate 200 (97::nat) @ [99]) \<and>
   replicate 200 97 @ [98] \<noteq> replicate 200 (97::nat) @ [99] \<and>
   fst (Tokenizer_call (\<lambda>t. Inr 0 :: TypeError + nat) (snd (Tokenizer_call (\<lambda>t. Inr (length t) :: TypeError + nat) []
     (replicate 200 97 @ [98]))) (replicate 200 97 @ [99])) = Inr 201 \<and>
   fst (SentimentAnalyzer_call (\<lambda>t. Inr 0 :: TypeError + nat) (snd (SentimentAnalyzer_call (\<lambda>t. Inr (length t) :: TypeError + nat) []
     (replicate 200 97 @ [98]))) (replicate 200 97 @ [99])) = Inr 201 \<and>
   fst (KeywordExtractor_call (\<lambda>t. Inr 0 :: TypeError + nat) (snd (KeywordExtractor_call (\<lambda>t. Inr (length t) :: TypeError + nat) []
     (replicate 200 97 @ [98]))) (replicate 200 97 @ [99])) = Inr 201 \<and>
   fst (NamedEntityRecognizer_call (\<lambda>t. Inr 0 :: TypeError + nat) (snd (NamedEntityRecognizer_call (\<lambda>t. Inr (length t) :: TypeError + nat) []
     (replicate 200 97 @ [98]))) (replicate 200 97 @ [99])) = Inr 201 \<and>
   fst (SentenceSplitter_call (\<lambda>t. Inr 0 :: TypeError + nat) (snd (SentenceSplitter_call (\<lambda>t. Inr (length t) :: TypeError + nat) []
     (replicate 200 97 @ [98]))) (replicate 200 97 @ [99])) = Inr 201"
proof -
  let ?t1 = "replicate 200 97 @ [98::nat]" and ?t2 = "replicate 200 97 @ [99::nat]"
  let ?f = "\<lambda>t::jsstring. Inr (length t) :: TypeError + nat"
  let ?g = "\<lambda>t::jsstring. Inr 0 :: TypeError + nat"
  have k: "take 100 ?t1 = take 100 ?t2" "take 150 ?t1 = take 150 ?t2" "take 200 ?t1 = take 200 ?t2"
    by simp_all
  have d: "?t1 \<noteq> ?t2" by simp
  have r: "fst (Tokenizer_call ?f [] ?t1) = Inr 201" "fst (SentimentAnalyzer_call ?f [] ?t1) = Inr 201"
    "fst (KeywordExtractor_call ?f [] ?t1) = Inr 201" "fst (NamedEntityRecognizer_call ?f [] ?t1) = Inr 201"
    "fst (SentenceSplitter_call ?f [] ?t1) = Inr 201"
    by (simp_all add: Tokenizer_call_def SentimentAnalyzer_call_def KeywordExtractor_call_def
        NamedEntityRecognizer_call_def SentenceSplitter_call_def cachedCall_def cacheGet_def)
  note c = engines_prefix_collision
  have c1: "fst (Tokenizer_call ?g (snd (Tokenizer_call ?f [] ?t1)) ?t2) = Inr 201"
    by (rule c [THEN conjunct1, rule_format, OF k(1) r(1)])
  have c2: "fst (SentimentAnalyzer_call ?g (snd (SentimentAnalyzer_call ?f [] ?t1)) ?t2) = Inr 201"
    by (rule c [THEN conjunct2, THEN conjunct1, rule_format, OF k(1) r(2)])
  have c3: "fst (KeywordExtractor_call ?g (snd (KeywordExtractor_call ?f [] ?t1)) ?t2) = Inr 201"
    by (rule c [THEN conjunct2, THEN conjunct2, THEN conjunct1, rule_format, OF k(1) r(3)])
  have c4: "fst (NamedEntityRecognizer_call ?g (snd (NamedEntityRecognizer_call ?f [] ?t1)) ?t2) = Inr 201"
    by (rule c [THEN conjunct2, THEN conjunct2, THEN conjunct2, THEN conjunct1, rule_format,
          OF k(2) r(4)])
  have c5: "fst (SentenceSplitter_call ?g (snd (SentenceSplitter_call ?f [] ?t1)) ?t2) = Inr 201"
    by (rule c [THEN conjunct2, THEN conjunct2, THEN conjunct2, THEN conjunct2, rule_format,
          OF k(3) r(5)])
  show ?thesis by (intro conjI) (rule k(3) d c1 c2 c3 c4 c5)+
qed

text \<open>
  A stored key is found again, and a call that hits leaves the cache as it is.
\<close>

lemma cachedCall_hit_unchanged:
  "cacheGet cache (take n t) = Some hit \<Longrightarrow> cachedCall n cap f cache t = (Inr hit, cache)"
  by (simp add: cachedCall_def)

text \<open>
  Eviction when the oldest key is not the empty string: the store at capacity drops the
  oldest entry and appends the new one, so the size stays at the capacity.
\<close>

lemma cacheStore_evicts_oldest:
  assumes "distinct (map fst ((k0, v0) # rest))" "k0 \<noteq> []" "k \<notin> fst ` set ((k0, v0) # rest)"
    "cap \<le> length ((k0, v0) # rest)"
  shows "cacheStore cap k v ((k0, v0) # rest) = rest @ [(k, v)]"
proof -
  have "cacheDelete k0 ((k0, v0) # rest) = rest"
    using assms(1) by (auto simp: cacheDelete_def filter_id_conv rev_image_eqI)
  moreover have "k \<notin> fst ` set rest" using assms(3) by auto
  ultimately show ?thesis using assms(2,4)
    by (simp add: cacheStore_def cacheSet_new del: cacheSet.simps)
qed

lemma cacheStore_stuck:
  assumes "c \<noteq> []" "fst (hd c) = []" "k \<notin> fst ` set c"
  shows "cacheStore cap k v c = c @ [(k, v)]"
proof -
  obtain v0 rest where c: "c = ([], v0) # rest" using assms(1,2) by (cases c) auto
  show ?thesis using assms(3) unfolding cacheStore_def c
    by (simp add: cacheSet_new del: cacheSet.simps)
qed

lemma cacheGet_None: "k \<notin> fst ` set c \<Longrightarrow> cacheGet c k = None"
  by (simp add: cacheGet_def map_of_eq_None_iff)

lemma cacheAfter_stuck:
  fixes compute :: "jsstring \<Rightarrow> 'e + 'v"
  assumes "\<forall>t. \<exists>r. compute t = Inr r"
  shows "c \<noteq> [] \<Longrightarrow> fst (hd c) = [] \<Longrightarrow> distinct ts \<Longrightarrow>
   \<forall>t\<in>set ts. length t \<le> n \<and> t \<notin> fst ` set c \<Longrightarrow>
   length (cacheAfter (cachedCall n cap) compute c ts) = length c + length ts"
proof (induction ts arbitrary: c)
  case Nil
  then show ?case by simp
next
  case (Cons t ts)
  obtain r where r: "compute t = Inr r" using assms by blast
  have k: "take n t = t" "t \<notin> fst ` set c" using Cons.prems(4) by auto
  have s: "snd (cachedCall n cap compute c t) = c @ [(t, r)]"
    using k r Cons.prems(1,2) by (simp add: cachedCall_def cacheGet_None cacheStore_stuck)
  have p1: "c @ [(t, r)] \<noteq> []" by simp
  have p2: "fst (hd (c @ [(t, r)])) = []" using Cons.prems(1,2) by simp
  have p3: "distinct ts" using Cons.prems(3) by simp
  have p4: "\<forall>t'\<in>set ts. length t' \<le> n \<and> t' \<notin> fst ` set (c @ [(t, r)])"
    using Cons.prems(3,4) by auto
  show ?case using s Cons.IH[OF p1 p2 p3 p4] by simp
qed

text \<open>
  Claim C8. The oldest key is removed only if it is truthy. Once the entry stored first has
  the empty string as its key (the first call was on the empty text), no call evicts
  anything: the tokenizer, whose capacity is 1000, holds 1001 entries after the empty text
  and 1000 one-character texts.
\<close>

theorem tokenizer_cache_exceeds_capacity:
  fixes v :: "jsstring \<Rightarrow> 'v"
  shows "length (cacheAfter Tokenizer_call (\<lambda>t. Inr (v t) :: TypeError + 'v) []
           ([] # map (\<lambda>i. [i + 1]) [0..<1000])) = 1001"
proof -
  let ?f = "\<lambda>t. Inr (v t) :: TypeError + 'v"
  have first: "snd (cachedCall 100 1000 ?f [] []) = [([], v [])]"
    by (simp add: cachedCall_def cacheGet_def cacheStore_def)
  have "length (cacheAfter (cachedCall 100 1000) ?f [([], v [])] (map (\<lambda>i. [i + 1]) [0..<1000]))
      = length [([]::nat list, v [])] + length (map (\<lambda>i. [i + 1::nat]) [0..<1000])"
    by (rule cacheAfter_stuck) (auto simp: distinct_map inj_on_def)
  then show ?thesis using first by (simp add: Tokenizer_call_def)
qed

end
